theory Spec2Isabelle
  imports Main "HOL-Library.AList"
begin

section \<open>Go library primitives used by the store\<close>

text \<open>
  Go strings and byte slices are sequences of bytes; a HOL \<open>char\<close> is one byte, so both
  are modelled by \<open>string\<close>.
\<close>

type_synonym bytes = string

subsection \<open>Package strings\<close>

text \<open>\<^verbatim>\<open>strings.Split(s, sep)\<close> for a one-byte separator; \<^verbatim>\<open>Split("", "/")\<close> is \<^verbatim>\<open>[""]\<close>.\<close>

fun Split :: "string \<Rightarrow> char \<Rightarrow> string list" where
  "Split [] sep = [[]]"
| "Split (c # cs) sep =
     (if c = sep then [] # Split cs sep
      else (case Split cs sep of [] \<Rightarrow> [[c]] | p # ps \<Rightarrow> (c # p) # ps))"

text \<open>\<^verbatim>\<open>strings.Join(elems, "/")\<close>.\<close>

fun strings_Join :: "string list \<Rightarrow> string" where
  "strings_Join [] = []"
| "strings_Join [e] = e"
| "strings_Join (e # es) = e @ CHR ''/'' # strings_Join es"

definition HasPrefix :: "string \<Rightarrow> string \<Rightarrow> bool" where
  "HasPrefix s pfx = (take (length pfx) s = pfx)"

definition TrimPrefix :: "string \<Rightarrow> string \<Rightarrow> string" where
  "TrimPrefix s pfx = (if HasPrefix s pfx then drop (length pfx) s else s)"

subsection \<open>Package net/url\<close>

definition unreserved :: "char \<Rightarrow> bool" where
  "unreserved c =
     (let n = (of_char c :: nat) in
        (65 \<le> n \<and> n \<le> 90) \<or> (97 \<le> n \<and> n \<le> 122) \<or> (48 \<le> n \<and> n \<le> 57)
        \<or> c = CHR ''-'' \<or> c = CHR ''_'' \<or> c = CHR ''.'' \<or> c = CHR ''~'')"

definition upperhex :: "nat \<Rightarrow> char" where
  "upperhex n = ''0123456789ABCDEF'' ! (n mod 16)"

text \<open>
  \<^verbatim>\<open>url.QueryEscape\<close>: letters, digits and \<^verbatim>\<open>-_.~\<close> stay, a space becomes \<^verbatim>\<open>+\<close>, every other
  byte becomes \<^verbatim>\<open>%XX\<close> with upper-case hexadecimal digits.
\<close>

fun QueryEscape :: "string \<Rightarrow> string" where
  "QueryEscape [] = []"
| "QueryEscape (c # cs) =
     (if unreserved c then c # QueryEscape cs
      else if c = CHR '' '' then CHR ''+'' # QueryEscape cs
      else CHR ''%'' # upperhex (of_char c div 16) # upperhex (of_char c mod 16) # QueryEscape cs)"

definition ishex :: "char \<Rightarrow> bool" where
  "ishex c =
     (let n = (of_char c :: nat) in
        (48 \<le> n \<and> n \<le> 57) \<or> (97 \<le> n \<and> n \<le> 102) \<or> (65 \<le> n \<and> n \<le> 70))"

definition unhex :: "char \<Rightarrow> nat" where
  "unhex c =
     (let n = (of_char c :: nat) in
        if 48 \<le> n \<and> n \<le> 57 then n - 48
        else if 97 \<le> n \<and> n \<le> 102 then n - 97 + 10
        else if 65 \<le> n \<and> n \<le> 70 then n - 65 + 10
        else 0)"

text \<open>
  \<^verbatim>\<open>url.QueryUnescape\<close>: \<^verbatim>\<open>+\<close> becomes a space, \<^verbatim>\<open>%XX\<close> the byte it names; a \<^verbatim>\<open>%\<close> that is
  not followed by two hexadecimal digits is an error (\<open>None\<close>).
\<close>

fun QueryUnescape :: "string \<Rightarrow> string option" where
  "QueryUnescape [] = Some []"
| "QueryUnescape (c # cs) =
     (if c = CHR ''%'' then
        (case cs of
           a # b # rest \<Rightarrow>
             (if ishex a \<and> ishex b
              then map_option ((#) (char_of (unhex a * 16 + unhex b))) (QueryUnescape rest)
              else None)
         | _ \<Rightarrow> None)
      else if c = CHR ''+'' then map_option ((#) CHR '' '') (QueryUnescape cs)
      else map_option ((#) c) (QueryUnescape cs))"

subsection \<open>Package path/filepath (Unix)\<close>

text \<open>
  \<^verbatim>\<open>filepath.Clean\<close> works on the elements between separators: empty elements and \<^verbatim>\<open>.\<close> are
  dropped, \<^verbatim>\<open>..\<close> removes the element before it unless that is itself \<^verbatim>\<open>..\<close>; at the start
  of a rooted path \<^verbatim>\<open>..\<close> is dropped, at the start of a relative one it stays. The stack
  \<open>acc\<close> holds the kept elements, last one first.
\<close>

fun clean_elems :: "bool \<Rightarrow> string list \<Rightarrow> string list \<Rightarrow> string list" where
  "clean_elems rooted acc [] = rev acc"
| "clean_elems rooted acc (e # es) =
     (if e = [] \<or> e = ''.'' then clean_elems rooted acc es
      else if e = ''..'' then
        (case acc of
           [] \<Rightarrow> if rooted then clean_elems rooted [] es else clean_elems rooted [''..''] es
         | a # as \<Rightarrow>
             if a = ''..'' then clean_elems rooted (''..'' # acc) es
             else clean_elems rooted as es)
      else clean_elems rooted (e # acc) es)"

definition is_rooted :: "string \<Rightarrow> bool" where
  "is_rooted p = (case p of [] \<Rightarrow> False | c # _ \<Rightarrow> c = CHR ''/'')"

definition Clean :: "string \<Rightarrow> string" where
  "Clean p =
     (let out = strings_Join (clean_elems (is_rooted p) [] (Split p CHR ''/''))
      in if is_rooted p then CHR ''/'' # out
         else if out = [] then ''.'' else out)"

text \<open>
  \<^verbatim>\<open>filepath.Join\<close>: the elements from the first non-empty one on are joined with
  separators and cleaned; when every element is empty the result is the empty string.
\<close>

definition filepath_Join :: "string list \<Rightarrow> string" where
  "filepath_Join elem =
     (case dropWhile (\<lambda>e. e = []) elem of
        [] \<Rightarrow> []
      | es \<Rightarrow> Clean (strings_Join es))"

text \<open>\<^verbatim>\<open>filepath.Split\<close>: the path up to and including the last separator, and the rest.\<close>

definition filepath_Split :: "string \<Rightarrow> string \<times> string" where
  "filepath_Split p =
     (rev (dropWhile (\<lambda>c. c \<noteq> CHR ''/'') (rev p)),
      rev (takeWhile (\<lambda>c. c \<noteq> CHR ''/'') (rev p)))"

definition filepath_Dir :: "string \<Rightarrow> string" where
  "filepath_Dir p = Clean (fst (filepath_Split p))"

text \<open>The characters that \<^verbatim>\<open>filepath.Match\<close> treats specially.\<close>

definition hasMeta :: "string \<Rightarrow> bool" where
  "hasMeta p = (\<exists>c \<in> set p. c = CHR ''*'' \<or> c = CHR ''?'' \<or> c = CHR ''['' \<or> c = CHR 0x5C)"

definition cleanGlobPath :: "string \<Rightarrow> string" where
  "cleanGlobPath p = (if p = [] then ''.'' else if p = ''/'' then ''/'' else butlast p)"


section \<open>The file system\<close>

text \<open>
  A file system is a finite table from paths to nodes. A path is the list of the elements
  of a cleaned path string; a rooted path starts with the element \<^verbatim>\<open>/\<close>. Paths are
  identified lexically: there are no symbolic links, and the directories above the working
  directory (\<^verbatim>\<open>..\<close>, \<^verbatim>\<open>../..\<close>) are directories of their own whose content is not related
  to the working directory. Permissions, name-length limits, short writes and full disks
  are outside the model: an operation fails only for the reasons written here.
\<close>

datatype node = File bytes | Dir

type_synonym path = "string list"

type_synonym fs = "(path \<times> node) list"

datatype error = ENOENT | ENOTDIR | EISDIR | ENOTEMPTY | EINVAL

definition path_of :: "string \<Rightarrow> path" where
  "path_of p =
     (if is_rooted p then [''/''] else []) @
     filter (\<lambda>e. e \<noteq> [] \<and> e \<noteq> ''.'') (Split p CHR ''/'')"

text \<open>The working directory, the root and the directories above the working directory always exist.\<close>

definition is_anchor :: "path \<Rightarrow> bool" where
  "is_anchor p = (p = [''/''] \<or> (\<forall>e \<in> set p. e = ''..''))"

definition lookup :: "fs \<Rightarrow> path \<Rightarrow> node option" where
  "lookup fs p = (if is_anchor p then Some Dir else map_of fs p)"

definition is_File :: "node option \<Rightarrow> bool" where
  "is_File n = (case n of Some (File _) \<Rightarrow> True | _ \<Rightarrow> False)"

text \<open>The error of resolving a path that has no node: a regular file on the way is \<^verbatim>\<open>ENOTDIR\<close>.\<close>

definition missing_err :: "fs \<Rightarrow> path \<Rightarrow> error" where
  "missing_err fs p =
     (if list_ex (\<lambda>i. is_File (lookup fs (take i p))) [0..<length p] then ENOTDIR else ENOENT)"

definition children :: "fs \<Rightarrow> path \<Rightarrow> string list" where
  "children fs d = map last (filter (\<lambda>q. q \<noteq> [] \<and> butlast q = d) (map fst fs))"

text \<open>\<^verbatim>\<open>os.Open(name)\<close>: the node that a read-only descriptor refers to.\<close>

definition os_Open :: "fs \<Rightarrow> string \<Rightarrow> error + node" where
  "os_Open fs name =
     (if name = [] then Inl ENOENT
      else (case lookup fs (path_of name) of
              None \<Rightarrow> Inl (missing_err fs (path_of name))
            | Some n \<Rightarrow> Inr n))"

text \<open>\<^verbatim>\<open>ioutil.ReadAll\<close> on an open descriptor: reading a directory fails.\<close>

definition ReadAll :: "node \<Rightarrow> error + bytes" where
  "ReadAll f = (case f of File bs \<Rightarrow> Inr bs | Dir \<Rightarrow> Inl EISDIR)"

text \<open>\<^verbatim>\<open>os.Stat(name)\<close> succeeding with a regular file.\<close>

definition IsRegular :: "fs \<Rightarrow> string \<Rightarrow> bool" where
  "IsRegular fs name = (name \<noteq> [] \<and> is_File (lookup fs (path_of name)))"

text \<open>\<^verbatim>\<open>os.Remove(name)\<close> removes a file or an empty directory.\<close>

definition os_Remove :: "fs \<Rightarrow> string \<Rightarrow> error + fs" where
  "os_Remove fs name =
     (if name = [] then Inl ENOENT
      else let p = path_of name in
        (case lookup fs p of
           None \<Rightarrow> Inl (missing_err fs p)
         | Some (File _) \<Rightarrow> Inr (AList.delete p fs)
         | Some Dir \<Rightarrow>
             if is_anchor p then Inl EINVAL
             else if children fs p \<noteq> [] then Inl ENOTEMPTY
             else Inr (AList.delete p fs)))"

text \<open>
  \<^verbatim>\<open>os.MkdirAll(name, perm)\<close> creates the missing directories of the path from the top
  and stops at a regular file. The store ignores its error, so only the file system is
  returned. \<open>pre\<close> is the part of the path already known to be a directory.
\<close>

fun mkdirs :: "fs \<Rightarrow> path \<Rightarrow> path \<Rightarrow> fs" where
  "mkdirs fs pre [] = fs"
| "mkdirs fs pre (e # es) =
     (case lookup fs (pre @ [e]) of
        Some Dir \<Rightarrow> mkdirs fs (pre @ [e]) es
      | Some (File _) \<Rightarrow> fs
      | None \<Rightarrow> mkdirs (AList.update (pre @ [e]) Dir fs) (pre @ [e]) es)"

definition os_MkdirAll :: "fs \<Rightarrow> string \<Rightarrow> fs" where
  "os_MkdirAll fs name = (if name = [] then fs else mkdirs fs [] (path_of name))"

text \<open>
  \<^verbatim>\<open>os.OpenFile(name, os.O_WRONLY|os.O_CREATE, 0600)\<close>: an existing regular file is opened
  as it is (there is no \<^verbatim>\<open>O_TRUNC\<close>), a missing one is created empty when its parent is a
  directory, a directory cannot be opened for writing.
\<close>

definition os_OpenFile :: "fs \<Rightarrow> string \<Rightarrow> error + fs" where
  "os_OpenFile fs name =
     (if name = [] then Inl ENOENT
      else let p = path_of name in
        (case lookup fs p of
           Some Dir \<Rightarrow> Inl EISDIR
         | Some (File _) \<Rightarrow> Inr fs
         | None \<Rightarrow>
             (case lookup fs (butlast p) of
                Some Dir \<Rightarrow> Inr (AList.update p (File []) fs)
              | Some (File _) \<Rightarrow> Inl ENOTDIR
              | None \<Rightarrow> Inl (missing_err fs p))))"

text \<open>
  Writing \<open>data\<close> through a descriptor that was just opened without \<^verbatim>\<open>O_APPEND\<close>: the
  bytes go to offset 0 and whatever the file held beyond them stays.
\<close>

definition write_at0 :: "fs \<Rightarrow> path \<Rightarrow> bytes \<Rightarrow> fs" where
  "write_at0 fs p data =
     (case lookup fs p of
        Some (File old) \<Rightarrow> AList.update p (File (data @ drop (length data) old)) fs
      | _ \<Rightarrow> fs)"

text \<open>
  \<^verbatim>\<open>filepath.Glob(g + "*")\<close> for a \<open>g\<close> without pattern characters: the entries of the
  directory part of \<open>g\<close> whose name starts with the rest of \<open>g\<close>. Go sorts the names; the
  model keeps the order of the table, and \<open>None\<close> stands for a \<open>g\<close> with pattern characters
  (they can only come from the store's root path), which is not modelled.
\<close>

definition Glob_star :: "fs \<Rightarrow> string \<Rightarrow> string list option" where
  "Glob_star fs g =
     (if hasMeta g then None
      else let (d, pfx) = filepath_Split g; dir = cleanGlobPath d in
        (case lookup fs (path_of dir) of
           Some Dir \<Rightarrow>
             Some (map (\<lambda>n. filepath_Join [dir, n])
                       (filter (\<lambda>n. HasPrefix n pfx) (children fs (path_of dir))))
         | _ \<Rightarrow> Some []))"

section \<open>Items\<close>

text \<open>
  The raw-bytes item of \<^verbatim>\<open>items.go\<close>. A Go \<^verbatim>\<open>Item\<close> that is \<^verbatim>\<open>nil\<close> is \<open>None\<close> of
  \<open>item option\<close>. The JSON and gob items hand their value to the encoders of the
  standard library and are not modelled.
\<close>

datatype item = ByteItem (Value: bytes)

definition WriteTo :: "item \<Rightarrow> bytes" where
  "WriteTo b = Value b"

definition ReadFrom :: "item \<Rightarrow> node \<Rightarrow> error + item" where
  "ReadFrom b r = (case ReadAll r of Inl e \<Rightarrow> Inl e | Inr data \<Rightarrow> Inr (ByteItem data))"

section \<open>Completion signals\<close>

text \<open>
  A channel of errors as a receiver finds it once every task that can still send on it or
  close it has finished: the values waiting in it and whether it is closed.
\<close>

record chan =
  buf :: "error option list"
  closed :: bool

text \<open>
  Receiving, as in \<^verbatim>\<open>err, ok := <-c\<close>: a waiting value \<open>v\<close> gives \<open>Some (v, True)\<close>, a
  closed and empty channel gives the \<^verbatim>\<open>nil\<close> error \<open>Some (None, False)\<close>, and \<open>None\<close> is a
  receiver that blocks for ever. A \<^verbatim>\<open>nil\<close> channel is \<open>None\<close> of \<open>chan option\<close>; receiving
  from it blocks for ever too.
\<close>

definition recv :: "chan \<Rightarrow> (error option \<times> bool) option" where
  "recv c =
     (case buf c of
        v # _ \<Rightarrow> Some (v, True)
      | [] \<Rightarrow> if closed c then Some (None, False) else None)"

definition recv_nilable :: "chan option \<Rightarrow> (error option \<times> bool) option" where
  "recv_nilable c = (case c of None \<Rightarrow> None | Some ch \<Rightarrow> recv ch)"

text \<open>
  How a call ends: it returns, it blocks for ever (holding the locks it holds), or it
  panics.
\<close>

datatype 'a outcome = Returns 'a | Blocks | Panics

text \<open>
  The \<^verbatim>\<open>Store\<close> interface over a store state \<open>'b\<close>: the four methods, each giving the state
  it leaves and how it ends. An interface value of the source is a state together with
  this table of methods.
\<close>

record 'b Store =
  bGet :: "'b \<Rightarrow> string \<Rightarrow> item \<Rightarrow> 'b \<times> item option outcome"
  bSet :: "'b \<Rightarrow> string \<Rightarrow> item option \<Rightarrow> 'b \<times> chan option outcome"
  bList :: "'b \<Rightarrow> string \<Rightarrow> string list option"
  bFlush :: "'b \<Rightarrow> 'b \<times> chan option outcome"

section \<open>The directory store\<close>

record dirStore =
  path :: string
  files :: fs

definition mkpath :: "string \<Rightarrow> string \<Rightarrow> string" where
  "mkpath root s = filepath_Join [root, filepath_Join (map QueryEscape (Split s CHR ''/''))]"

definition dirStore_Get :: "dirStore \<Rightarrow> string \<Rightarrow> item \<Rightarrow> item option" where
  "dirStore_Get store key item =
     (case os_Open (files store) (mkpath (path store) key) of
        Inr f \<Rightarrow> (case ReadFrom item f of Inr item' \<Rightarrow> Some item' | Inl _ \<Rightarrow> None)
      | Inl _ \<Rightarrow> None)"

text \<open>
  The task that \<^verbatim>\<open>Set\<close> starts: the file system it leaves and the error it sends, if any.
\<close>

definition Set_task :: "dirStore \<Rightarrow> string \<Rightarrow> item option \<Rightarrow> fs \<times> error option" where
  "Set_task store key item =
     (let s = mkpath (path store) key in
        (case item of
           None \<Rightarrow>
             (case os_Remove (files store) s of
                Inl err \<Rightarrow> (files store, Some err)
              | Inr fs' \<Rightarrow> (fs', None))
         | Some it \<Rightarrow>
             (let fs1 = os_MkdirAll (files store) (filepath_Dir s) in
                (case os_OpenFile fs1 s of
                   Inl err \<Rightarrow> (fs1, Some err)
                 | Inr fs2 \<Rightarrow> (write_at0 fs2 (path_of s) (WriteTo it), None)))))"

text \<open>
  \<^verbatim>\<open>Set\<close> returns a channel of capacity 1 and starts the task, which closes the channel
  when it ends. The model gives the store and the channel as they are when the task has
  ended, which is what a caller finds who has received from the channel. Tasks run one
  after the other in the order of the calls; two tasks that are under way at the same
  time are outside the model.
\<close>

definition dirStore_Set :: "dirStore \<Rightarrow> string \<Rightarrow> item option \<Rightarrow> dirStore \<times> chan" where
  "dirStore_Set store key item =
     (case Set_task store key item of
        (fs', None) \<Rightarrow> (store\<lparr>files := fs'\<rparr>, \<lparr>buf = [], closed = True\<rparr>)
      | (fs', Some err) \<Rightarrow> (store\<lparr>files := fs'\<rparr>, \<lparr>buf = [Some err], closed = True\<rparr>))"

text \<open>
  \<^verbatim>\<open>Flush\<close> waits for the write tasks, syncs and closes its channel without sending.
\<close>

definition dirStore_Flush :: "dirStore \<Rightarrow> dirStore \<times> chan" where
  "dirStore_Flush store = (store, \<lparr>buf = [], closed = True\<rparr>)"

text \<open>
  \<^verbatim>\<open>List\<close>: the keys in the order of the matches; the store's contract leaves the order
  open. \<open>None\<close> is a root path with pattern characters (see \<open>Glob_star\<close>).
\<close>

definition List_matches :: "dirStore \<Rightarrow> string list \<Rightarrow> string list" where
  "List_matches store matches =
     concat (map (\<lambda>file.
        if IsRegular (files store) file then
          (case QueryUnescape file of
             Some s \<Rightarrow> [TrimPrefix s (path store @ ''/'')]
           | None \<Rightarrow> [])
        else []) matches)"

definition dirStore_List :: "dirStore \<Rightarrow> string \<Rightarrow> string list option" where
  "dirStore_List store prefix =
     (let prefix' = (if prefix = [] then ''/'' else prefix);
          glob = mkpath (path store) (prefix' @ ''x'');
          glob' = butlast glob
      in map_option (List_matches store) (Glob_star (files store) glob'))"

text \<open>\<^verbatim>\<open>NewStore(path)\<close>, together with the file system that the store finds.\<close>

definition NewStore :: "string \<Rightarrow> fs \<Rightarrow> dirStore" where
  "NewStore p fs = \<lparr>path = p, files = fs\<rparr>"


text \<open>The directory store as a \<^verbatim>\<open>Store\<close>: none of its methods blocks or panics.\<close>

definition dirStore_Store :: "dirStore Store" where
  "dirStore_Store =
     \<lparr>bGet = (\<lambda>store key item. (store, Returns (dirStore_Get store key item))),
      bSet = (\<lambda>store key item.
                case dirStore_Set store key item of (store', c) \<Rightarrow> (store', Returns (Some c))),
      bList = dirStore_List,
      bFlush = (\<lambda>store.
                case dirStore_Flush store of (store', c) \<Rightarrow> (store', Returns (Some c)))\<rparr>"

section \<open>The LRU cache\<close>

record lruItem =
  K :: string
  V :: "item option"

text \<open>
  The recency list \<open>l\<close> holds the handles of its elements, front first; \<open>elValue\<close> is the
  \<^verbatim>\<open>Value\<close> field of each element, \<open>m\<close> the map from keys to elements in the order in which
  a \<^verbatim>\<open>range\<close> visits it (Go leaves that order open), \<open>size_lru\<close> the field \<^verbatim>\<open>size\<close>, and
  \<open>nxt\<close> the next handle that \<^verbatim>\<open>PushFront\<close> allocates.
\<close>

record 'b lru =
  l :: "nat list"
  elValue :: "nat \<Rightarrow> lruItem"
  m :: "(string \<times> nat) list"
  size_lru :: int
  backend :: "'b option"
  nxt :: nat

definition NewLRU :: "int \<Rightarrow> 'b option \<Rightarrow> 'b lru" where
  "NewLRU sz b =
     \<lparr>l = [], elValue = (\<lambda>_. \<lparr>K = [], V = None\<rparr>), m = [], size_lru = sz, backend = b, nxt = 0\<rparr>"

subsection \<open>Package container/list\<close>

definition PushFront :: "'b lru \<Rightarrow> lruItem \<Rightarrow> nat \<times> 'b lru" where
  "PushFront store v =
     (nxt store,
      store\<lparr>l := nxt store # l store, elValue := (elValue store)(nxt store := v),
            nxt := Suc (nxt store)\<rparr>)"

definition MoveToFront :: "'b lru \<Rightarrow> nat \<Rightarrow> 'b lru" where
  "MoveToFront store el =
     (if el \<in> set (l store) then store\<lparr>l := el # remove1 el (l store)\<rparr> else store)"

definition Back :: "'b lru \<Rightarrow> nat option" where
  "Back store = (if l store = [] then None else Some (last (l store)))"

subsection \<open>The methods\<close>

definition closed_chan :: chan where
  "closed_chan = \<lparr>buf = [], closed = True\<rparr>"

text \<open>
  The second branch of \<^verbatim>\<open>put\<close> after the write-back: the victim leaves the map, its
  element takes the new pair and moves to the front, the map gets the new key.
\<close>

definition replace_back :: "'b lru \<Rightarrow> nat \<Rightarrow> lruItem \<Rightarrow> string \<Rightarrow> item option \<Rightarrow> 'b lru" where
  "replace_back store el val key item =
     (let s1 = store\<lparr>m := AList.delete (K val) (m store)\<rparr>;
          s2 = s1\<lparr>elValue := (elValue s1)(el := \<lparr>K = key, V = item\<rparr>)\<rparr>;
          s3 = MoveToFront s2 el
      in s3\<lparr>m := AList.update key el (m s3)\<rparr>)"

text \<open>
  \<^verbatim>\<open>put\<close> returns the channel \<^verbatim>\<open>c\<close>, which stays \<^verbatim>\<open>nil\<close> unless the backend's \<^verbatim>\<open>Set\<close> gave
  one. With an empty list \<^verbatim>\<open>Back()\<close> is \<^verbatim>\<open>nil\<close> and reading \<^verbatim>\<open>el.Value\<close> panics.
\<close>

definition put :: "'b Store \<Rightarrow> 'b lru \<Rightarrow> string \<Rightarrow> item option \<Rightarrow> 'b lru \<times> chan option outcome" where
  "put ops store key item =
     (if int (length (m store)) < size_lru store then
        (case PushFront store \<lparr>K = key, V = item\<rparr> of
           (el, s1) \<Rightarrow> (s1\<lparr>m := AList.update key el (m s1)\<rparr>, Returns None))
      else
        (case Back store of
           None \<Rightarrow> (store, Panics)
         | Some el \<Rightarrow>
             (let val = elValue store el in
                (case backend store of
                   None \<Rightarrow> (replace_back store el val key item, Returns None)
                 | Some be \<Rightarrow>
                     (case bSet ops be (K val) (V val) of
                        (be', Returns c) \<Rightarrow>
                          (replace_back (store\<lparr>backend := Some be'\<rparr>) el val key item, Returns c)
                      | (be', Blocks) \<Rightarrow> (store\<lparr>backend := Some be'\<rparr>, Blocks)
                      | (be', Panics) \<Rightarrow> (store\<lparr>backend := Some be'\<rparr>, Panics))))))"

definition lru_Get :: "'b Store \<Rightarrow> 'b lru \<Rightarrow> string \<Rightarrow> item \<Rightarrow> 'b lru \<times> item option outcome" where
  "lru_Get ops store key item =
     (case map_of (m store) key of
        Some el \<Rightarrow> (MoveToFront store el, Returns (V (elValue store el)))
      | None \<Rightarrow>
          (case backend store of
             None \<Rightarrow> (store, Returns None)
           | Some be \<Rightarrow>
               (case bGet ops be key item of
                  (be', Returns (Some item')) \<Rightarrow>
                    (case put ops (store\<lparr>backend := Some be'\<rparr>) key (Some item') of
                       (s1, Returns c) \<Rightarrow>
                         (case recv_nilable c of
                            None \<Rightarrow> (s1, Blocks)
                          | Some _ \<Rightarrow> (s1, Returns (Some item')))
                     | (s1, Blocks) \<Rightarrow> (s1, Blocks)
                     | (s1, Panics) \<Rightarrow> (s1, Panics))
                | (be', Returns None) \<Rightarrow> (store\<lparr>backend := Some be'\<rparr>, Returns None)
                | (be', Blocks) \<Rightarrow> (store\<lparr>backend := Some be'\<rparr>, Blocks)
                | (be', Panics) \<Rightarrow> (store\<lparr>backend := Some be'\<rparr>, Panics))))"

definition lru_Set :: "'b Store \<Rightarrow> 'b lru \<Rightarrow> string \<Rightarrow> item option \<Rightarrow> 'b lru \<times> chan option outcome" where
  "lru_Set ops store key item =
     (case map_of (m store) key of
        Some el \<Rightarrow>
          (MoveToFront (store\<lparr>elValue := (elValue store)(el := \<lparr>K = key, V = item\<rparr>)\<rparr>) el,
           Returns (Some closed_chan))
      | None \<Rightarrow>
          (case item of
             None \<Rightarrow> (store, Returns (Some closed_chan))
           | Some it \<Rightarrow>
               (case put ops store key item of
                  (s1, Returns (Some c)) \<Rightarrow> (s1, Returns (Some c))
                | (s1, Returns None) \<Rightarrow> (s1, Returns (Some closed_chan))
                | (s1, Blocks) \<Rightarrow> (s1, Blocks)
                | (s1, Panics) \<Rightarrow> (s1, Panics))))"

definition lru_List :: "'b lru \<Rightarrow> string \<Rightarrow> string list" where
  "lru_List store prefix = filter (\<lambda>k. HasPrefix k prefix) (map fst (m store))"

text \<open>The loop of \<^verbatim>\<open>Flush\<close> over the map, handing every pair to the backend.\<close>

fun flush_range :: "'b Store \<Rightarrow> (nat \<Rightarrow> lruItem) \<Rightarrow> 'b \<Rightarrow> (string \<times> nat) list \<Rightarrow> 'b \<times> unit outcome" where
  "flush_range ops val be [] = (be, Returns ())"
| "flush_range ops val be (kv # rest) =
     (case bSet ops be (K (val (snd kv))) (V (val (snd kv))) of
        (be', Returns _) \<Rightarrow> flush_range ops val be' rest
      | (be', Blocks) \<Rightarrow> (be', Blocks)
      | (be', Panics) \<Rightarrow> (be', Panics))"

text \<open>
  \<^verbatim>\<open>Flush\<close> makes an unbuffered channel and, only when there is a backend, starts the task
  that closes it. The result is the store and the channel as they are once that task has
  ended; \<open>Blocks\<close> is a task that never ends and keeps the cache's lock.
\<close>

definition lru_Flush :: "'b Store \<Rightarrow> 'b lru \<Rightarrow> 'b lru \<times> chan option outcome" where
  "lru_Flush ops store =
     (case backend store of
        None \<Rightarrow> (store, Returns (Some \<lparr>buf = [], closed = False\<rparr>))
      | Some be \<Rightarrow>
          (case flush_range ops (elValue store) be (m store) of
             (be1, Returns _) \<Rightarrow>
               (case bFlush ops be1 of
                  (be2, Returns fc) \<Rightarrow>
                    (case recv_nilable fc of
                       None \<Rightarrow> (store\<lparr>backend := Some be2\<rparr>, Blocks)
                     | Some (err, ok) \<Rightarrow>
                         (store\<lparr>backend := Some be2\<rparr>,
                          Returns (Some \<lparr>buf = (if ok then [err] else []), closed = True\<rparr>)))
                | (be2, Blocks) \<Rightarrow> (store\<lparr>backend := Some be2\<rparr>, Blocks)
                | (be2, Panics) \<Rightarrow> (store\<lparr>backend := Some be2\<rparr>, Panics))
           | (be1, Blocks) \<Rightarrow> (store\<lparr>backend := Some be1\<rparr>, Blocks)
           | (be1, Panics) \<Rightarrow> (store\<lparr>backend := Some be1\<rparr>, Panics)))"

text \<open>The cache as a \<^verbatim>\<open>Store\<close>, so that a cache can be the backend of another one.\<close>

definition lru_Store :: "'b Store \<Rightarrow> 'b lru Store" where
  "lru_Store ops =
     \<lparr>bGet = lru_Get ops, bSet = lru_Set ops,
      bList = (\<lambda>store prefix. Some (lru_List store prefix)),
      bFlush = lru_Flush ops\<rparr>"


section \<open>Sequences of calls on a cache\<close>

datatype op = OpGet string item | OpSet string "item option" | OpList string | OpFlush

text \<open>One call on the cache: the state it leaves and how it ends, without its result.\<close>

definition step :: "'b Store \<Rightarrow> 'b lru \<Rightarrow> op \<Rightarrow> 'b lru \<times> unit outcome" where
  "step ops store x =
     (case x of
        OpGet key item \<Rightarrow>
          (case lru_Get ops store key item of (s1, r) \<Rightarrow> (s1, map_outcome (\<lambda>_. ()) r))
      | OpSet key item \<Rightarrow>
          (case lru_Set ops store key item of (s1, r) \<Rightarrow> (s1, map_outcome (\<lambda>_. ()) r))
      | OpList prefix \<Rightarrow> (store, Returns ())
      | OpFlush \<Rightarrow>
          (case lru_Flush ops store of (s1, r) \<Rightarrow> (s1, map_outcome (\<lambda>_. ()) r)))"

text \<open>
  The states a sequence of calls goes through, each call starting in the state the call
  before it left, however that call ended. This includes a caller that recovers from a
  panic (the deferred unlock has run) and goes on; for a call that blocks while it holds
  the cache's lock it includes more than can happen, since no later call gets in.
\<close>

fun run :: "'b Store \<Rightarrow> 'b lru \<Rightarrow> op list \<Rightarrow> 'b lru list" where
  "run ops store [] = [store]"
| "run ops store (x # xs) = store # run ops (fst (step ops store x)) xs"

section \<open>The invariant of the cache's index\<close>

text \<open>
  The map has one entry per list element: an element is registered under the key its pair
  holds, no key and no element occurs twice, and every element was allocated.
\<close>

definition cache_inv :: "'b lru \<Rightarrow> bool" where
  "cache_inv s \<longleftrightarrow>
     distinct (map fst (m s)) \<and> distinct (l s) \<and>
     set (m s) = (\<lambda>el. (K (elValue s el), el)) ` set (l s) \<and>
     (\<forall>el \<in> set (l s). el < nxt s)"

definition cache_ok :: "int \<Rightarrow> 'b lru \<Rightarrow> bool" where
  "cache_ok N s \<longleftrightarrow> cache_inv s \<and> size_lru s = N \<and> int (length (l s)) \<le> N"


section \<open>Example stores\<close>

text \<open>A cache of capacity 2 without backend after three \<^verbatim>\<open>Set\<close> calls with present items.\<close>

definition foo_bar_baz :: "'b Store \<Rightarrow> item \<Rightarrow> item \<Rightarrow> item \<Rightarrow> 'b lru" where
  "foo_bar_baz ops v1 v2 v3 =
     fst (lru_Set ops (fst (lru_Set ops (fst (lru_Set ops (NewLRU 2 None) ''foo'' (Some v1)))
       ''bar'' (Some v2))) ''baz'' (Some v3))"

text \<open>A directory store whose root directory holds the file of the key \<^verbatim>\<open>foo\<close>.\<close>

definition dir_with_foo :: dirStore where
  "dir_with_foo =
     NewStore ''store-test'' [([''store-test''], Dir), ([''store-test'', ''foo''], File ''Hello'')]"

text \<open>
  A cache of capacity 1 over that store, holding the empty key, whose path in the backend
  is the root directory itself.
\<close>

definition cache_holding_root_key :: "dirStore lru" where
  "cache_holding_root_key =
     fst (lru_Set dirStore_Store (NewLRU 1 (Some dir_with_foo)) [] (Some (ByteItem ''x'')))"


section \<open>The cache keeps its index consistent\<close>

lemma update_absent: "key \<notin> fst ` set al \<Longrightarrow> AList.update key v al = al @ [(key, v)]"
  by (induction al) auto

lemma set_delete: "set (AList.delete k al) = {p \<in> set al. fst p \<noteq> k}"
  by (induction al) auto

lemma inv_length:
  assumes "cache_inv s"
  shows "length (m s) = length (l s)"
proof -
  from assms have dk: "distinct (map fst (m s))" and dl: "distinct (l s)"
    and eq: "set (m s) = (\<lambda>el. (K (elValue s el), el)) ` set (l s)"
    by (auto simp: cache_inv_def)
  have "distinct (m s)" using dk by (simp add: distinct_map)
  then have "length (m s) = card (set (m s))" by (simp add: distinct_card)
  also have "\<dots> = card ((\<lambda>el. (K (elValue s el), el)) ` set (l s))" by (simp add: eq)
  also have "\<dots> = card (set (l s))"
    by (rule card_image) (auto simp: inj_on_def)
  also have "\<dots> = length (l s)" using dl by (simp add: distinct_card)
  finally show ?thesis .
qed

lemma NewLRU_inv: "cache_inv (NewLRU n b)"
  by (simp add: cache_inv_def NewLRU_def)

lemma MoveToFront_inv: "cache_inv s \<Longrightarrow> cache_inv (MoveToFront s el)"
  by (auto simp: cache_inv_def MoveToFront_def)

lemma MoveToFront_fields:
  "m (MoveToFront s el) = m s" "size_lru (MoveToFront s el) = size_lru s"
  "length (l (MoveToFront s el)) = length (l s)" "elValue (MoveToFront s el) = elValue s"
  "backend (MoveToFront s el) = backend s"
  by (auto simp: MoveToFront_def length_remove1 intro: Suc_pred length_pos_if_in_set)

lemma image_upd_fresh:
  "n \<notin> A \<Longrightarrow> (\<lambda>el. (K ((ev(n := v)) el), el)) ` A = (\<lambda>el. (K (ev el), el)) ` A"
  by (rule image_cong) auto

lemma push_inv:
  assumes "cache_inv s" "key \<notin> fst ` set (m s)"
  shows "cache_inv (s\<lparr>l := nxt s # l s, elValue := (elValue s)(nxt s := \<lparr>K = key, V = item\<rparr>),
            nxt := Suc (nxt s), m := AList.update key (nxt s) (m s)\<rparr>)"
proof -
  from assms(1) have dk: "distinct (map fst (m s))" and dl: "distinct (l s)"
    and eq: "set (m s) = (\<lambda>el. (K (elValue s el), el)) ` set (l s)"
    and lt: "\<forall>el \<in> set (l s). el < nxt s"
    by (auto simp: cache_inv_def)
  from lt have fresh: "nxt s \<notin> set (l s)" by auto
  have upd: "AList.update key (nxt s) (m s) = m s @ [(key, nxt s)]"
    using assms(2) by (rule update_absent)
  have img: "(\<lambda>el. (K (((elValue s)(nxt s := \<lparr>K = key, V = item\<rparr>)) el), el)) ` set (l s)
      = (\<lambda>el. (K (elValue s el), el)) ` set (l s)"
    using fresh by (rule image_upd_fresh)
  show ?thesis
    unfolding cache_inv_def
    using dk dl lt fresh assms(2)
    by (simp add: upd eq img less_Suc_eq fun_upd_same del: fun_upd_apply)
qed

lemma replace_inv:
  assumes "cache_inv s" "key \<notin> fst ` set (m s)" "Back s = Some el" "val = elValue s el"
  shows "cache_inv (replace_back s el val key item)"
    and "length (l (replace_back s el val key item)) = length (l s)"
    and "size_lru (replace_back s el val key item) = size_lru s"
    and "backend (replace_back s el val key item) = backend s"
proof -
  from assms(1) have dk: "distinct (map fst (m s))" and dl: "distinct (l s)"
    and eq: "set (m s) = (\<lambda>el. (K (elValue s el), el)) ` set (l s)"
    and lt: "\<forall>el \<in> set (l s). el < nxt s"
    by (auto simp: cache_inv_def)
  from assms(3) have el: "el \<in> set (l s)"
    by (auto simp: Back_def split: if_splits)
  let ?d = "AList.delete (K val) (m s)"
  have knd: "key \<notin> fst ` set ?d" using assms(2) by (auto simp: set_delete)
  have upd: "AList.update key el ?d = ?d @ [(key, el)]"
    using knd by (rule update_absent)
  have dd: "distinct (map fst ?d)" using dk by (rule distinct_delete)
  have uniq: "e = el" if e: "e \<in> set (l s)" and k: "K (elValue s e) = K val" for e
  proof -
    have a: "(K val, e) \<in> set (m s)" unfolding eq using e k by (simp add: image_iff)
    have b: "(K val, el) \<in> set (m s)" unfolding eq using el assms(4) by (simp add: image_iff)
    from dk a b show "e = el" by (rule eq_key_imp_eq_value)
  qed
  have A: "{e \<in> set (l s). K (elValue s e) \<noteq> K val} = set (l s) - {el}"
    using uniq assms(4) by blast
  have "set ?d = {p \<in> (\<lambda>e. (K (elValue s e), e)) ` set (l s). fst p \<noteq> K val}"
    by (simp add: set_delete eq)
  also have "\<dots> = (\<lambda>e. (K (elValue s e), e)) ` {e \<in> set (l s). K (elValue s e) \<noteq> K val}"
    by (auto simp: image_iff)
  finally have sd: "set ?d = (\<lambda>e. (K (elValue s e), e)) ` (set (l s) - {el})"
    by (simp only: A)
  let ?f = "\<lambda>e. (K (elValue s e), e)"
  let ?f' = "\<lambda>e. (K (((elValue s)(el := \<lparr>K = key, V = item\<rparr>)) e), e)"
  have img: "?f' ` (set (l s) - {el}) = ?f ` (set (l s) - {el})"
    by (rule image_upd_fresh) simp
  have "set (l s) = insert el (set (l s) - {el})" using el by blast
  then have "?f' ` set (l s) = ?f' ` insert el (set (l s) - {el})"
    by (rule arg_cong)
  also have "\<dots> = insert (?f' el) (?f' ` (set (l s) - {el}))"
    by (rule image_insert)
  finally have final: "?f' ` set (l s) = insert (key, el) (?f ` (set (l s) - {el}))"
    by (simp only: img fun_upd_same lruItem.simps)
  let ?s' = "replace_back s el val key item"
  have fl: "l ?s' = el # remove1 el (l s)"
    using el by (simp add: replace_back_def Let_def MoveToFront_def)
  have fm: "m ?s' = ?d @ [(key, el)]"
    using el by (simp add: replace_back_def Let_def MoveToFront_def upd)
  have fv: "elValue ?s' = (elValue s)(el := \<lparr>K = key, V = item\<rparr>)"
    using el by (simp add: replace_back_def Let_def MoveToFront_def)
  have fn: "nxt ?s' = nxt s"
    using el by (simp add: replace_back_def Let_def MoveToFront_def)
  have c1: "distinct (map fst (m ?s'))" using dd knd by (simp add: fm)
  have c2: "distinct (l ?s')" using dl by (simp add: fl)
  have sl: "set (l ?s') = set (l s)" using el dl by (auto simp: fl)
  have c3: "set (m ?s') = (\<lambda>e. (K (elValue ?s' e), e)) ` set (l ?s')"
    unfolding sl fv final by (simp add: fm sd)
  have c4: "\<forall>e \<in> set (l ?s'). e < nxt ?s'" unfolding sl fn using lt .
  show "cache_inv (replace_back s el val key item)"
    unfolding cache_inv_def using c1 c2 c3 c4 by blast
  show "length (l (replace_back s el val key item)) = length (l s)"
    unfolding replace_back_def Let_def MoveToFront_def
    using el by (auto simp: length_remove1 intro: Suc_pred length_pos_if_in_set)
  show "size_lru (replace_back s el val key item) = size_lru s"
    and "backend (replace_back s el val key item) = backend s"
    unfolding replace_back_def Let_def MoveToFront_def by auto
qed



lemma cache_ok_backend: "cache_ok N (s\<lparr>backend := b\<rparr>) = cache_ok N s"
  by (simp add: cache_ok_def cache_inv_def)

lemma Back_backend: "Back (s\<lparr>backend := b\<rparr>) = Back s"
  by (simp add: Back_def)

lemma cache_ok_MoveToFront: "cache_ok N s \<Longrightarrow> cache_ok N (MoveToFront s el)"
  by (simp add: cache_ok_def MoveToFront_inv MoveToFront_fields)

lemma put_ok:
  assumes ok: "cache_ok N s" and fresh: "key \<notin> fst ` set (m s)"
    and res: "put ops s key item = (s', r)"
  shows "cache_ok N s'"
proof (cases "int (length (m s)) < size_lru s")
  case True
  from ok have inv: "cache_inv s" and sz: "size_lru s = N" by (auto simp: cache_ok_def)
  from True res have s': "s' = s\<lparr>l := nxt s # l s,
        elValue := (elValue s)(nxt s := \<lparr>K = key, V = item\<rparr>),
        nxt := Suc (nxt s), m := AList.update key (nxt s) (m s)\<rparr>"
    by (auto simp: put_def PushFront_def)
  have "cache_inv s'" unfolding s' using inv fresh by (rule push_inv)
  moreover have "int (length (l s')) \<le> N"
    using True sz inv_length[OF inv] by (simp add: s')
  moreover have "size_lru s' = N" using sz by (simp add: s')
  ultimately show ?thesis by (simp add: cache_ok_def)
next
  case False
  show ?thesis
  proof (cases "Back s")
    case None
    with False res have "s' = s" by (auto simp: put_def)
    with ok show ?thesis by simp
  next
    case (Some el)
    let ?val = "elValue s el"
    have rb: "cache_ok N (replace_back (s\<lparr>backend := b\<rparr>) el ?val key item)" for b
    proof -
      let ?s = "s\<lparr>backend := b\<rparr>"
      from ok have ok': "cache_ok N ?s" by (simp add: cache_ok_backend)
      then have inv: "cache_inv ?s" by (simp add: cache_ok_def)
      have f: "key \<notin> fst ` set (m ?s)" using fresh by simp
      have bk: "Back ?s = Some el" using Some by (simp add: Back_backend)
      have v: "?val = elValue ?s el" by simp
      note r = replace_inv[OF inv f bk v]
      show ?thesis using ok' r by (simp add: cache_ok_def)
    qed
    have rb0: "cache_ok N (replace_back s el ?val key item)"
      using rb[of "backend s"] by simp
    show ?thesis
    proof (cases "backend s")
      case None
      with False Some res have "s' = replace_back s el ?val key item"
        by (auto simp: put_def Let_def)
      with rb0 show ?thesis by simp
    next
      case (Some be)
      obtain be' o' where bs: "bSet ops be (K ?val) (V ?val) = (be', o')"
        by (cases "bSet ops be (K ?val) (V ?val)")
      show ?thesis
      proof (cases o')
        case (Returns c)
        with False \<open>Back s = Some el\<close> Some bs res
        have "s' = replace_back (s\<lparr>backend := Some be'\<rparr>) el ?val key item"
          by (auto simp: put_def Let_def)
        with rb show ?thesis by simp
      next
        case Blocks
        with False \<open>Back s = Some el\<close> Some bs res
        have "s' = s\<lparr>backend := Some be'\<rparr>" by (auto simp: put_def Let_def)
        with ok show ?thesis by (simp add: cache_ok_backend)
      next
        case Panics
        with False \<open>Back s = Some el\<close> Some bs res
        have "s' = s\<lparr>backend := Some be'\<rparr>" by (auto simp: put_def Let_def)
        with ok show ?thesis by (simp add: cache_ok_backend)
      qed
    qed
  qed
qed

lemma map_of_None_fresh: "map_of al key = None \<Longrightarrow> key \<notin> fst ` set al"
  by (simp add: map_of_eq_None_iff)

lemma set_existing_inv:
  assumes "cache_inv s" "map_of (m s) key = Some el"
  shows "cache_inv (s\<lparr>elValue := (elValue s)(el := \<lparr>K = key, V = item\<rparr>)\<rparr>)"
proof -
  from assms(1) have eq: "set (m s) = (\<lambda>el. (K (elValue s el), el)) ` set (l s)"
    by (simp add: cache_inv_def)
  have mem: "(key, el) \<in> set (m s)" using assms(2) by (rule map_of_SomeD)
  then have k: "K (elValue s el) = key" unfolding eq by auto
  have "(\<lambda>e. (K (((elValue s)(el := \<lparr>K = key, V = item\<rparr>)) e), e)) ` set (l s)
      = (\<lambda>e. (K (elValue s e), e)) ` set (l s)"
    by (rule image_cong) (auto simp: k)
  then show ?thesis using assms(1) by (simp add: cache_inv_def del: fun_upd_apply)
qed

lemma Set_ok:
  assumes ok: "cache_ok N s" and res: "lru_Set ops s key item = (s', r)"
  shows "cache_ok N s'"
proof (cases "map_of (m s) key")
  case (Some el)
  from ok have "cache_inv s" by (simp add: cache_ok_def)
  then have "cache_inv (s\<lparr>elValue := (elValue s)(el := \<lparr>K = key, V = item\<rparr>)\<rparr>)"
    using Some by (rule set_existing_inv)
  with ok have "cache_ok N (s\<lparr>elValue := (elValue s)(el := \<lparr>K = key, V = item\<rparr>)\<rparr>)"
    by (simp add: cache_ok_def)
  then have "cache_ok N (MoveToFront (s\<lparr>elValue := (elValue s)(el := \<lparr>K = key, V = item\<rparr>)\<rparr>) el)"
    by (rule cache_ok_MoveToFront)
  with Some res show ?thesis by (auto simp: lru_Set_def)
next
  case None
  show ?thesis
  proof (cases item)
    case None
    with \<open>map_of (m s) key = None\<close> res have "s' = s" by (auto simp: lru_Set_def)
    with ok show ?thesis by simp
  next
    case (Some it)
    obtain s1 r1 where p: "put ops s key item = (s1, r1)" by (cases "put ops s key item")
    from ok map_of_None_fresh[OF None] p have "cache_ok N s1" by (rule put_ok)
    moreover from None Some p res have "s' = s1"
      by (auto simp: lru_Set_def split: outcome.splits option.splits)
    ultimately show ?thesis by simp
  qed
qed

lemma Get_ok:
  assumes ok: "cache_ok N s" and res: "lru_Get ops s key t = (s', r)"
  shows "cache_ok N s'"
proof (cases "map_of (m s) key")
  case (Some el)
  with res have "s' = MoveToFront s el" by (auto simp: lru_Get_def)
  with ok show ?thesis by (simp add: cache_ok_MoveToFront)
next
  case None
  show ?thesis
  proof (cases "backend s")
    case None
    with \<open>map_of (m s) key = None\<close> res have "s' = s" by (auto simp: lru_Get_def)
    with ok show ?thesis by simp
  next
    case (Some be)
    obtain be' o' where g: "bGet ops be key t = (be', o')" by (cases "bGet ops be key t")
    let ?s = "s\<lparr>backend := Some be'\<rparr>"
    have ok': "cache_ok N ?s" using ok by (simp add: cache_ok_backend)
    show ?thesis
    proof (cases "\<exists>it. o' = Returns (Some it)")
      case True
      then obtain it where o': "o' = Returns (Some it)" by blast
      obtain s1 r1 where p: "put ops ?s key (Some it) = (s1, r1)"
        by (cases "put ops ?s key (Some it)")
      have "key \<notin> fst ` set (m ?s)" using map_of_None_fresh[OF None] by simp
      with ok' have "cache_ok N s1" using p by (rule put_ok)
      moreover from None Some g o' p res have "s' = s1"
        by (auto simp: lru_Get_def split: outcome.splits option.splits)
      ultimately show ?thesis by simp
    next
      case False
      with None Some g res have "s' = ?s"
        by (auto simp: lru_Get_def split: outcome.splits option.splits)
      with ok' show ?thesis by simp
    qed
  qed
qed

lemma Flush_frame:
  assumes "lru_Flush ops s = (s', r)"
  shows "s' = s\<lparr>backend := backend s'\<rparr>"
  using assms
  by (auto simp: lru_Flush_def split: option.splits prod.splits outcome.splits)

lemma Flush_ok:
  assumes ok: "cache_ok N s" and res: "lru_Flush ops s = (s', r)"
  shows "cache_ok N s'"
proof -
  have "s' = s\<lparr>backend := backend s'\<rparr>" using res by (rule Flush_frame)
  then have "cache_ok N s' = cache_ok N s" by (metis cache_ok_backend)
  with ok show ?thesis by simp
qed

lemma NewLRU_ok: "0 \<le> N \<Longrightarrow> cache_ok N (NewLRU N b)"
  by (simp add: cache_ok_def NewLRU_inv) (simp add: NewLRU_def)

lemma step_ok:
  assumes "cache_ok N s" "step ops s x = (s', r)"
  shows "cache_ok N s'"
proof (cases x)
  case (OpGet key t)
  with assms(2) obtain r1 where "lru_Get ops s key t = (s', r1)"
    by (auto simp: step_def split: prod.splits)
  with assms(1) show ?thesis by (rule Get_ok)
next
  case (OpSet key item)
  with assms(2) obtain r1 where "lru_Set ops s key item = (s', r1)"
    by (auto simp: step_def split: prod.splits)
  with assms(1) show ?thesis by (rule Set_ok)
next
  case (OpList p)
  with assms show ?thesis by (simp add: step_def)
next
  case OpFlush
  with assms(2) obtain r1 where "lru_Flush ops s = (s', r1)"
    by (auto simp: step_def split: prod.splits)
  with assms(1) show ?thesis by (rule Flush_ok)
qed

lemma run_ok: "cache_ok N s0 \<Longrightarrow> s \<in> set (run ops s0 xs) \<Longrightarrow> cache_ok N s"
proof (induction xs arbitrary: s0)
  case Nil
  then show ?case by simp
next
  case (Cons x xs)
  have "step ops s0 x = (fst (step ops s0 x), snd (step ops s0 x))" by simp
  with Cons.prems(1) have ok1: "cache_ok N (fst (step ops s0 x))" by (rule step_ok)
  from Cons.prems(2) have "s = s0 \<or> s \<in> set (run ops (fst (step ops s0 x)) xs)" by simp
  then show ?case using Cons.prems(1) Cons.IH[OF ok1] by blast
qed

lemma cache_ok_card:
  assumes "cache_ok N s"
  shows "card (dom (map_of (m s))) = length (m s)" "int (length (m s)) \<le> N"
proof -
  from assms have inv: "cache_inv s" and le: "int (length (l s)) \<le> N"
    by (auto simp: cache_ok_def)
  from inv have d: "distinct (map fst (m s))" by (simp add: cache_inv_def)
  have "card (dom (map_of (m s))) = card (set (map fst (m s)))"
    by (simp add: dom_map_of_conv_image_fst)
  also have "\<dots> = length (map fst (m s))" using d by (rule distinct_card)
  finally show "card (dom (map_of (m s))) = length (m s)" by simp
  show "int (length (m s)) \<le> N" using le inv_length[OF inv] by simp
qed

lemma tail_found:
  assumes "cache_ok N s" "1 \<le> N" "\<not> int (length (m s)) < size_lru s"
  shows "Back s \<noteq> None"
proof -
  from assms(1) have inv: "cache_inv s" and sz: "size_lru s = N" by (auto simp: cache_ok_def)
  from assms(2,3) sz inv_length[OF inv] have "l s \<noteq> []" by auto
  then show ?thesis by (simp add: Back_def)
qed

section \<open>Facts about the file system and the two stores\<close>


lemma lookup_update_self: "\<not> is_anchor p \<Longrightarrow> lookup (AList.update p n fs) p = Some n"
  by (simp add: lookup_def update_conv')

lemma lookup_update_other: "q \<noteq> p \<Longrightarrow> lookup (AList.update q n fs) p = lookup fs p"
  by (simp add: lookup_def update_conv')

lemma lookup_File_not_anchor: "lookup fs p = Some (File bs) \<Longrightarrow> \<not> is_anchor p"
  by (auto simp: lookup_def)

lemma path_of_empty: "path_of [] = []"
  by (simp add: path_of_def is_rooted_def)

lemma is_anchor_Nil: "is_anchor []"
  by (simp add: is_anchor_def)

text \<open>\<^verbatim>\<open>MkdirAll\<close> only adds directories where nothing was.\<close>

lemma mkdirs_keeps: "lookup fs p = Some n \<Longrightarrow> lookup (mkdirs fs pre es) p = Some n"
proof (induction es arbitrary: fs pre)
  case Nil
  then show ?case by simp
next
  case (Cons e es)
  show ?case
  proof (cases "lookup fs (pre @ [e])")
    case None
    with Cons.prems have "pre @ [e] \<noteq> p" by auto
    then have "lookup (AList.update (pre @ [e]) Dir fs) p = Some n"
      using Cons.prems by (simp add: lookup_update_other)
    then have "lookup (mkdirs (AList.update (pre @ [e]) Dir fs) (pre @ [e]) es) p = Some n"
      by (rule Cons.IH)
    with None show ?thesis by simp
  next
    case (Some nd)
    then show ?thesis using Cons by (cases nd) auto
  qed
qed

text \<open>The directory store's \<^verbatim>\<open>Set\<close> always returns, so the loop of \<^verbatim>\<open>Flush\<close> over it ends.\<close>

lemma flush_range_dir: "\<exists>d'. flush_range dirStore_Store val d kvs = (d', Returns ())"
  by (induction kvs arbitrary: d) (auto simp: dirStore_Store_def split: prod.splits)

text \<open>The cache's \<^verbatim>\<open>List\<close> returns exactly the keys of the map that start with the prefix.\<close>

lemma lru_List_exact: "set (lru_List s p) = {k \<in> dom (map_of (m s)). HasPrefix k p}"
  by (auto simp: lru_List_def dom_map_of_conv_image_fst)

text \<open>
  With the three flat keys of the store's tests the directory store lists by prefix as
  the contract says.
\<close>

lemma dirStore_List_flat_keys:
  "dirStore_List (fst (dirStore_Set (fst (dirStore_Set (fst (dirStore_Set
      (NewStore ''store-test'' []) ''foo'' (Some (ByteItem ''Hello''))))
      ''bar'' (Some (ByteItem ''World'')))) ''baz'' (Some (ByteItem ''!'')))) ''ba''
     = Some [''bar'', ''baz'']"
  "dirStore_List (fst (dirStore_Set (fst (dirStore_Set (fst (dirStore_Set
      (NewStore ''store-test'' []) ''foo'' (Some (ByteItem ''Hello''))))
      ''bar'' (Some (ByteItem ''World'')))) ''baz'' (Some (ByteItem ''!'')))) []
     = Some [''foo'', ''bar'', ''baz'']"
  by code_simp+

text \<open>In the cache a \<^verbatim>\<open>Get\<close> after a \<^verbatim>\<open>Set\<close> that returned gives back the item that was set.\<close>

lemma lru_round_trip:
  assumes "lru_Set ops s key (Some it) = (s', Returns c)"
  shows "snd (lru_Get ops s' key t) = Returns (Some it)"
proof (cases "map_of (m s) key")
  case (Some el)
  then have "(key, el) \<in> set (m s)" by (rule map_of_SomeD)
  with Some assms show ?thesis
    by (auto simp: lru_Set_def lru_Get_def MoveToFront_fields)
next
  case None
  obtain s1 r1 where p: "put ops s key (Some it) = (s1, r1)" by (cases "put ops s key (Some it)")
  with None assms have s1: "s1 = s'" and r1: "\<exists>c'. r1 = Returns c'"
    by (auto simp: lru_Set_def split: outcome.splits option.splits)
  have "\<exists>el. map_of (m s') key = Some el \<and> V (elValue s' el) = Some it"
    using p r1 unfolding s1
    by (auto simp: put_def PushFront_def replace_back_def MoveToFront_def Let_def update_conv'
        split: if_splits option.splits prod.splits outcome.splits)
  then show ?thesis by (auto simp: lru_Get_def)
qed


section \<open>Claims about the cache\<close>

text \<open>
  C5: for a cache of capacity \<open>N \<ge> 1\<close>, in every state that a finite sequence of
  \<^verbatim>\<open>Get\<close>, \<^verbatim>\<open>Set\<close>, \<^verbatim>\<open>List\<close> and \<^verbatim>\<open>Flush\<close> calls goes through from the empty cache, the
  number of keys in the key-to-element map is at most \<open>N\<close>. The map holds no key twice, so
  that number is the length of the table that models it.
\<close>

theorem lru_capacity:
  "1 \<le> N \<Longrightarrow> s \<in> set (run ops (NewLRU N b) xs) \<Longrightarrow>
     card (dom (map_of (m s))) = length (m s) \<and> int (length (m s)) \<le> N"
proof -
  assume N: "1 \<le> N" and s: "s \<in> set (run ops (NewLRU N b) xs)"
  from N have "cache_ok N (NewLRU N b)" by (simp add: NewLRU_ok)
  then have "cache_ok N s" using s by (rule run_ok)
  then show ?thesis using cache_ok_card by blast
qed

theorem lru_capacity_witness:
  "(1::int) \<le> 2 \<and>
   foo_bar_baz dirStore_Store (ByteItem ''Hello'') (ByteItem ''World'') (ByteItem ''!'')
     \<in> set (run dirStore_Store (NewLRU 2 None)
         [OpSet ''foo'' (Some (ByteItem ''Hello'')), OpSet ''bar'' (Some (ByteItem ''World'')),
          OpSet ''baz'' (Some (ByteItem ''!''))]) \<and>
   length (m (foo_bar_baz dirStore_Store (ByteItem ''Hello'') (ByteItem ''World'') (ByteItem ''!''))) = 2 \<and>
   card (dom (map_of (m (foo_bar_baz dirStore_Store (ByteItem ''Hello'') (ByteItem ''World'')
     (ByteItem ''!''))))) = 2"
proof -
  let ?s = "foo_bar_baz dirStore_Store (ByteItem ''Hello'') (ByteItem ''World'') (ByteItem ''!'')"
  let ?xs = "[OpSet ''foo'' (Some (ByteItem ''Hello'')), OpSet ''bar'' (Some (ByteItem ''World'')),
          OpSet ''baz'' (Some (ByteItem ''!''))]"
  have mem: "?s \<in> set (run dirStore_Store (NewLRU 2 None) ?xs)"
    by (simp add: foo_bar_baz_def step_def lru_Set_def put_def NewLRU_def PushFront_def Back_def
        replace_back_def MoveToFront_def Let_def)
  have len: "length (m ?s) = 2"
    by (simp add: foo_bar_baz_def lru_Set_def put_def NewLRU_def PushFront_def Back_def
        replace_back_def MoveToFront_def Let_def)
  have N: "(1::int) \<le> 2" by simp
  from lru_capacity[OF N mem] len mem show ?thesis by simp
qed

text \<open>
  C10: with capacity \<open>N \<ge> 1\<close> the second branch of \<^verbatim>\<open>put\<close> always finds a tail element,
  so \<^verbatim>\<open>put\<close> panics only when the backend's \<^verbatim>\<open>Set\<close> does. \<^verbatim>\<open>NewLRU\<close> stores any \<open>N\<close> as it
  is, and with \<open>N = 0\<close> the first insertion, by \<^verbatim>\<open>Set\<close> or by a \<^verbatim>\<open>Get\<close> that the backend
  fulfils, takes the second branch with an empty list and panics on the \<^verbatim>\<open>nil\<close> tail.
\<close>

theorem put_tail_found:
  "(1 \<le> N \<longrightarrow>
      (\<forall>s \<in> set (run ops (NewLRU N b) xs).
          (\<not> int (length (m s)) < size_lru s \<longrightarrow> Back s \<noteq> None) \<and>
          (\<forall>key item. snd (put ops s key item) = Panics \<longrightarrow>
             (\<exists>be el. backend s = Some be \<and> Back s = Some el \<and>
                snd (bSet ops be (K (elValue s el)) (V (elValue s el))) = Panics)))) \<and>
   size_lru (NewLRU N b) = N \<and>
   put ops (NewLRU 0 b) key item = (NewLRU 0 b, Panics) \<and>
   lru_Set ops (NewLRU 0 b) key (Some it) = (NewLRU 0 b, Panics) \<and>
   (bGet ops be key t = (be', Returns (Some it)) \<longrightarrow>
      lru_Get ops (NewLRU 0 (Some be)) key t = (NewLRU 0 (Some be'), Panics))"
proof -
  have a: "(\<not> int (length (m s)) < size_lru s \<longrightarrow> Back s \<noteq> None) \<and>
          (\<forall>key item. snd (put ops s key item) = Panics \<longrightarrow>
             (\<exists>be el. backend s = Some be \<and> Back s = Some el \<and>
                snd (bSet ops be (K (elValue s el)) (V (elValue s el))) = Panics))"
    if N: "1 \<le> N" and s: "s \<in> set (run ops (NewLRU N b) xs)" for s
  proof -
    from N have "cache_ok N (NewLRU N b)" by (simp add: NewLRU_ok)
    then have ok: "cache_ok N s" using s by (rule run_ok)
    have t: "\<not> int (length (m s)) < size_lru s \<Longrightarrow> Back s \<noteq> None"
      using ok N by (rule tail_found)
    have "\<exists>be el. backend s = Some be \<and> Back s = Some el \<and>
                snd (bSet ops be (K (elValue s el)) (V (elValue s el))) = Panics"
      if p: "snd (put ops s key item) = Panics" for key item
    proof (cases "int (length (m s)) < size_lru s")
      case True
      with p show ?thesis by (simp add: put_def PushFront_def)
    next
      case False
      with t obtain el where el: "Back s = Some el" by auto
      with False p show ?thesis
        by (auto simp: put_def Let_def split: option.splits prod.splits outcome.splits)
    qed
    with t show ?thesis by blast
  qed
  have b: "put ops (NewLRU 0 bk) key item = (NewLRU 0 bk, Panics)" for key item bk
    by (simp add: put_def NewLRU_def Back_def)
  have c: "lru_Set ops (NewLRU 0 b) key (Some it) = (NewLRU 0 b, Panics)"
    using b[of b key "Some it"] by (simp add: lru_Set_def) (simp add: NewLRU_def)
  have d: "lru_Get ops (NewLRU 0 (Some be)) key t = (NewLRU 0 (Some be'), Panics)"
    if "bGet ops be key t = (be', Returns (Some it))"
  proof -
    have u: "NewLRU 0 (Some be)\<lparr>backend := Some be'\<rparr> = (NewLRU 0 (Some be') :: 'a lru)"
      by (simp add: NewLRU_def)
    have f: "m (NewLRU 0 (Some be)) = []" "backend (NewLRU 0 (Some be)) = Some be"
      by (simp_all add: NewLRU_def)
    show ?thesis by (simp add: lru_Get_def f that u b)
  qed
  have e: "size_lru (NewLRU N b) = N" by (simp add: NewLRU_def)
  from a b c d e show ?thesis by blast
qed

theorem put_tail_found_witness:
  "Back (foo_bar_baz dirStore_Store (ByteItem ''Hello'') (ByteItem ''World'') (ByteItem ''!''))
     = Some 1 \<and>
   size_lru (NewLRU 0 None :: dirStore lru) = 0 \<and>
   lru_Set dirStore_Store (NewLRU 0 None) ''foo'' (Some (ByteItem ''Hello''))
     = (NewLRU 0 None, Panics) \<and>
   bGet dirStore_Store dir_with_foo ''foo'' (ByteItem [])
     = (dir_with_foo, Returns (Some (ByteItem ''Hello''))) \<and>
   lru_Get dirStore_Store (NewLRU 0 (Some dir_with_foo)) ''foo'' (ByteItem [])
     = (NewLRU 0 (Some dir_with_foo), Panics)"
proof -
  let ?s = "foo_bar_baz dirStore_Store (ByteItem ''Hello'') (ByteItem ''World'') (ByteItem ''!'')"
  let ?xs = "[OpSet ''foo'' (Some (ByteItem ''Hello'')), OpSet ''bar'' (Some (ByteItem ''World'')),
          OpSet ''baz'' (Some (ByteItem ''!''))]"
  have mem: "?s \<in> set (run dirStore_Store (NewLRU 2 None) ?xs)"
    by (simp add: foo_bar_baz_def step_def lru_Set_def put_def NewLRU_def PushFront_def Back_def
        replace_back_def MoveToFront_def Let_def)
  have full: "\<not> int (length (m ?s)) < size_lru ?s"
    by (simp add: foo_bar_baz_def lru_Set_def put_def NewLRU_def PushFront_def Back_def
        replace_back_def MoveToFront_def Let_def)
  have bk: "Back ?s = (if l ?s = [] then None else Some 1)"
    by (simp add: foo_bar_baz_def lru_Set_def put_def NewLRU_def PushFront_def Back_def
        replace_back_def MoveToFront_def Let_def)
  have g: "bGet dirStore_Store dir_with_foo ''foo'' (ByteItem [])
     = (dir_with_foo, Returns (Some (ByteItem ''Hello'')))"
    by code_simp
  note t = put_tail_found[of 2 dirStore_Store None ?xs "''foo''" "Some (ByteItem ''Hello'')"
      "ByteItem ''Hello''" dir_with_foo "ByteItem []" dir_with_foo]
  have N: "(1::int) \<le> 2" by simp
  from t N mem full have "Back ?s \<noteq> None" by blast
  with bk have "Back ?s = Some 1" by (simp split: if_splits)
  moreover from put_tail_found[of 0 dirStore_Store None "[]" "''foo''" "Some (ByteItem ''Hello'')"
      "ByteItem ''Hello''" dir_with_foo "ByteItem []" dir_with_foo] g
  have "size_lru (NewLRU 0 None :: dirStore lru) = 0 \<and>
     lru_Set dirStore_Store (NewLRU 0 None) ''foo'' (Some (ByteItem ''Hello''))
       = (NewLRU 0 None, Panics) \<and>
     lru_Get dirStore_Store (NewLRU 0 (Some dir_with_foo)) ''foo'' (ByteItem [])
       = (NewLRU 0 (Some dir_with_foo), Panics)"
    by simp
  ultimately show ?thesis using g by simp
qed

text \<open>
  C9: \<^verbatim>\<open>Flush\<close> on a cache with a backend leaves the cache's own state as it was: the
  recency list, the map, the pair of every element and the capacity; only the backend's
  state changes.
\<close>

theorem flush_frame:
  "backend s = Some be \<Longrightarrow> lru_Flush ops s = (s', r) \<Longrightarrow>
     l s' = l s \<and> m s' = m s \<and> elValue s' = elValue s \<and> size_lru s' = size_lru s \<and>
     nxt s' = nxt s \<and> backend s' \<noteq> None"
proof -
  assume b: "backend s = Some be" and f: "lru_Flush ops s = (s', r)"
  from f have "s' = s\<lparr>backend := backend s'\<rparr>" by (rule Flush_frame)
  then have "l s' = l s \<and> m s' = m s \<and> elValue s' = elValue s \<and> size_lru s' = size_lru s \<and>
     nxt s' = nxt s"
    by (metis lru.select_convs(1,2,3,4,6) lru.surjective lru.update_convs(5))
  moreover from b f have "backend s' \<noteq> None"
    by (auto simp: lru_Flush_def split: option.splits prod.splits outcome.splits)
  ultimately show ?thesis by simp
qed

theorem flush_frame_witness:
  "backend cache_holding_root_key = Some dir_with_foo \<and>
   l (fst (lru_Flush dirStore_Store cache_holding_root_key)) = [0] \<and>
   m (fst (lru_Flush dirStore_Store cache_holding_root_key)) = [([], 0)] \<and>
   elValue (fst (lru_Flush dirStore_Store cache_holding_root_key)) 0
     = \<lparr>K = [], V = Some (ByteItem ''x'')\<rparr> \<and>
   size_lru (fst (lru_Flush dirStore_Store cache_holding_root_key)) = 1"
proof -
  let ?s = "cache_holding_root_key"
  have b: "backend ?s = Some dir_with_foo" by code_simp
  have f: "lru_Flush dirStore_Store ?s
      = (fst (lru_Flush dirStore_Store ?s), snd (lru_Flush dirStore_Store ?s))"
    by simp
  have v: "l ?s = [0]" "m ?s = [([], 0)]" "elValue ?s 0 = \<lparr>K = [], V = Some (ByteItem ''x'')\<rparr>"
    "size_lru ?s = 1"
    by code_simp+
  from flush_frame[OF b f] b v show ?thesis by simp
qed

text \<open>
  C6: \<^verbatim>\<open>Set\<close> with an absent item on a key that is in the cache keeps the entry: the map is
  unchanged, the element's pair holds the key with a \<^verbatim>\<open>nil\<close> value, \<^verbatim>\<open>List\<close> with a matching
  prefix still returns the key, and a following \<^verbatim>\<open>Get\<close> returns \<^verbatim>\<open>nil\<close>.
\<close>

theorem set_absent_keeps_entry:
  "map_of (m s) key = Some el \<Longrightarrow>
     (case lru_Set ops s key None of
        (s', r) \<Rightarrow>
          r = Returns (Some closed_chan) \<and> m s' = m s \<and> map_of (m s') key = Some el \<and>
          elValue s' el = \<lparr>K = key, V = None\<rparr> \<and>
          (HasPrefix key p \<longrightarrow> key \<in> set (lru_List s' p)) \<and>
          snd (lru_Get ops s' key t) = Returns None)"
proof -
  assume a: "map_of (m s) key = Some el"
  then have "(key, el) \<in> set (m s)" by (rule map_of_SomeD)
  then have "key \<in> fst ` set (m s)" by force
  with a show ?thesis
    by (simp add: lru_Set_def MoveToFront_fields lru_List_def lru_Get_def)
qed

theorem set_absent_keeps_entry_witness:
  "map_of (m (foo_bar_baz dirStore_Store (ByteItem ''Hello'') (ByteItem ''World'') (ByteItem ''!'')))
     ''bar'' = Some 1 \<and>
   lru_List (fst (lru_Set dirStore_Store
       (foo_bar_baz dirStore_Store (ByteItem ''Hello'') (ByteItem ''World'') (ByteItem ''!''))
       ''bar'' None)) ''ba'' = [''bar'', ''baz''] \<and>
   snd (lru_Get dirStore_Store (fst (lru_Set dirStore_Store
       (foo_bar_baz dirStore_Store (ByteItem ''Hello'') (ByteItem ''World'') (ByteItem ''!''))
       ''bar'' None)) ''bar'' (ByteItem [])) = Returns None"
proof -
  let ?s = "foo_bar_baz dirStore_Store (ByteItem ''Hello'') (ByteItem ''World'') (ByteItem ''!'')"
  have h: "map_of (m ?s) ''bar'' = Some 1" by code_simp
  have li: "lru_List (fst (lru_Set dirStore_Store ?s ''bar'' None)) ''ba'' = [''bar'', ''baz'']"
    by code_simp
  from set_absent_keeps_entry[where ops = dirStore_Store and p = "''ba''" and t = "ByteItem []", OF h]
  have "snd (lru_Get dirStore_Store (fst (lru_Set dirStore_Store ?s ''bar'' None)) ''bar''
      (ByteItem [])) = Returns None"
    by (simp add: case_prod_beta)
  with h li show ?thesis by simp
qed

text \<open>
  C3: on a cache without backend \<^verbatim>\<open>Flush\<close> starts no task and returns the channel it
  made, open and empty; nothing ever closes it or sends on it, so a caller that receives
  from it blocks for ever. The claim says the channel is already closed.
\<close>

theorem flush_without_backend:
  "backend s = None \<Longrightarrow>
     lru_Flush ops s = (s, Returns (Some \<lparr>buf = [], closed = False\<rparr>)) \<and>
     recv_nilable (Some \<lparr>buf = [], closed = False\<rparr>) = None"
  by (simp add: lru_Flush_def recv_nilable_def recv_def)

theorem flush_without_backend_witness:
  "backend (NewLRU 2 None :: dirStore lru) = None \<and>
   lru_Flush dirStore_Store (NewLRU 2 None)
     = (NewLRU 2 None, Returns (Some \<lparr>buf = [], closed = False\<rparr>)) \<and>
   recv_nilable (Some \<lparr>buf = [], closed = False\<rparr>) = None"
proof -
  have b: "backend (NewLRU 2 None :: dirStore lru) = None" by (simp add: NewLRU_def)
  from flush_without_backend[OF b, of dirStore_Store] b show ?thesis by simp
qed

text \<open>
  C7: a cache of capacity 2 without backend, after \<^verbatim>\<open>Set\<close> of \<^verbatim>\<open>foo\<close>, \<^verbatim>\<open>bar\<close> and \<^verbatim>\<open>baz\<close> in
  that order with present items: \<^verbatim>\<open>Get\<close> of \<^verbatim>\<open>foo\<close> returns \<^verbatim>\<open>nil\<close>, \<^verbatim>\<open>Get\<close> of \<^verbatim>\<open>bar\<close> and of
  \<^verbatim>\<open>baz\<close> return the items that were set, each asked first and also asked one after the
  other.
\<close>

theorem eviction_order:
  "snd (lru_Get ops (foo_bar_baz ops v1 v2 v3) ''foo'' t) = Returns None \<and>
   snd (lru_Get ops (foo_bar_baz ops v1 v2 v3) ''bar'' t) = Returns (Some v2) \<and>
   snd (lru_Get ops (foo_bar_baz ops v1 v2 v3) ''baz'' t) = Returns (Some v3) \<and>
   snd (lru_Get ops (fst (lru_Get ops (foo_bar_baz ops v1 v2 v3) ''foo'' t)) ''bar'' t)
     = Returns (Some v2) \<and>
   snd (lru_Get ops (fst (lru_Get ops (fst (lru_Get ops (foo_bar_baz ops v1 v2 v3) ''foo'' t))
     ''bar'' t)) ''baz'' t) = Returns (Some v3)"
  by (simp add: foo_bar_baz_def lru_Set_def put_def NewLRU_def PushFront_def Back_def
      replace_back_def MoveToFront_def lru_Get_def Let_def)

theorem eviction_order_witness:
  "snd (lru_Get dirStore_Store
     (foo_bar_baz dirStore_Store (ByteItem ''Hello'') (ByteItem ''World'') (ByteItem ''!''))
     ''foo'' (ByteItem [])) = Returns None \<and>
   snd (lru_Get dirStore_Store
     (foo_bar_baz dirStore_Store (ByteItem ''Hello'') (ByteItem ''World'') (ByteItem ''!''))
     ''bar'' (ByteItem [])) = Returns (Some (ByteItem ''World'')) \<and>
   snd (lru_Get dirStore_Store
     (foo_bar_baz dirStore_Store (ByteItem ''Hello'') (ByteItem ''World'') (ByteItem ''!''))
     ''baz'' (ByteItem [])) = Returns (Some (ByteItem ''!''))"
  using eviction_order[of dirStore_Store "ByteItem ''Hello''" "ByteItem ''World''"
      "ByteItem ''!''" "ByteItem []"]
  by simp

section \<open>Claims about the directory store\<close>




text \<open>
  C1: the claim is that \<^verbatim>\<open>Get\<close> after a completed \<^verbatim>\<open>Set\<close> returns the bytes that were set,
  also over a longer earlier value. The store opens the file without truncating it, so
  over an existing file with content \<open>old\<close> the \<^verbatim>\<open>Set\<close> succeeds and \<^verbatim>\<open>Get\<close> returns the new
  bytes followed by what \<open>old\<close> held beyond them: the round trip fails whenever \<open>old\<close> is
  longer than the new value.
\<close>

theorem overwrite_keeps_old_tail:
  "lookup (files store) (path_of (mkpath (path store) key)) = Some (File old) \<Longrightarrow>
     snd (dirStore_Set store key (Some it)) = closed_chan \<and>
     dirStore_Get (fst (dirStore_Set store key (Some it))) key t
       = Some (ByteItem (WriteTo it @ drop (length (WriteTo it)) old))"
proof -
  let ?s = "mkpath (path store) key"
  let ?p = "path_of ?s"
  let ?fs1 = "os_MkdirAll (files store) (filepath_Dir ?s)"
  assume f: "lookup (files store) ?p = Some (File old)"
  then have na: "\<not> is_anchor ?p" by (rule lookup_File_not_anchor)
  then have ne: "?s \<noteq> []" by (auto simp: path_of_empty is_anchor_Nil)
  have f1: "lookup ?fs1 ?p = Some (File old)"
    using f by (simp add: os_MkdirAll_def mkdirs_keeps)
  then have op: "os_OpenFile ?fs1 ?s = Inr ?fs1"
    using ne by (simp add: os_OpenFile_def Let_def)
  let ?new = "WriteTo it @ drop (length (WriteTo it)) old"
  have w: "write_at0 ?fs1 ?p (WriteTo it) = AList.update ?p (File ?new) ?fs1"
    using f1 by (simp add: write_at0_def)
  have st: "dirStore_Set store key (Some it)
      = (store\<lparr>files := AList.update ?p (File ?new) ?fs1\<rparr>, closed_chan)"
    by (simp add: dirStore_Set_def Set_task_def Let_def op w closed_chan_def)
  have "lookup (AList.update ?p (File ?new) ?fs1) ?p = Some (File ?new)"
    using na by (rule lookup_update_self)
  then show ?thesis using ne
    by (simp add: st dirStore_Get_def os_Open_def ReadFrom_def ReadAll_def)
qed

theorem overwrite_keeps_old_tail_witness:
  "lookup (files (fst (dirStore_Set (NewStore ''store-test'' []) ''foo''
       (Some (ByteItem ''Hello!!'')))))
     (path_of (mkpath ''store-test'' ''foo'')) = Some (File ''Hello!!'') \<and>
   snd (dirStore_Set (fst (dirStore_Set (NewStore ''store-test'' []) ''foo''
       (Some (ByteItem ''Hello!!'')))) ''foo'' (Some (ByteItem ''Hi''))) = closed_chan \<and>
   dirStore_Get (fst (dirStore_Set (fst (dirStore_Set (NewStore ''store-test'' []) ''foo''
       (Some (ByteItem ''Hello!!'')))) ''foo'' (Some (ByteItem ''Hi'')))) ''foo'' (ByteItem [])
     = Some (ByteItem ''Hillo!!'')"
proof -
  let ?st = "fst (dirStore_Set (NewStore ''store-test'' []) ''foo'' (Some (ByteItem ''Hello!!'')))"
  have p: "path ?st = ''store-test''" by code_simp
  have h: "lookup (files ?st) (path_of (mkpath (path ?st) ''foo'')) = Some (File ''Hello!!'')"
    by code_simp
  from overwrite_keeps_old_tail[OF h, of "ByteItem ''Hi''" "ByteItem []"] h p
  show ?thesis by (simp add: WriteTo_def)
qed

text \<open>
  C4: the claim is that \<^verbatim>\<open>List\<close> returns every existing key with the given prefix, also
  hierarchical keys. The directory store globs one directory level only: after a
  completed \<^verbatim>\<open>Set\<close> of the key \<^verbatim>\<open>a/b\<close>, which \<^verbatim>\<open>Get\<close> finds, neither \<^verbatim>\<open>List("")\<close> nor
  \<^verbatim>\<open>List("a")\<close> returns it; only a prefix that names its directory does.
\<close>

theorem List_misses_nested_key:
  "snd (dirStore_Set (NewStore ''store-test'' []) ''a/b'' (Some (ByteItem ''Hello''))) = closed_chan \<and>
   dirStore_Get (fst (dirStore_Set (NewStore ''store-test'' []) ''a/b'' (Some (ByteItem ''Hello''))))
     ''a/b'' (ByteItem []) = Some (ByteItem ''Hello'') \<and>
   dirStore_List (fst (dirStore_Set (NewStore ''store-test'' []) ''a/b'' (Some (ByteItem ''Hello''))))
     [] = Some [] \<and>
   dirStore_List (fst (dirStore_Set (NewStore ''store-test'' []) ''a/b'' (Some (ByteItem ''Hello''))))
     ''a'' = Some [] \<and>
   dirStore_List (fst (dirStore_Set (NewStore ''store-test'' []) ''a/b'' (Some (ByteItem ''Hello''))))
     ''a/'' = Some [''a/b'']"
  by code_simp

section \<open>Write-back errors\<close>

text \<open>
  C2, as claimed: the error of a failed write-back does not reach the caller of the \<^verbatim>\<open>Set\<close>
  that evicted. It does: the cache holds the empty key, whose file in the backend would be
  the root directory; \<^verbatim>\<open>Set\<close> of \<^verbatim>\<open>bar\<close> evicts it, the backend cannot open a directory
  for writing, and the channel that \<^verbatim>\<open>Set\<close> returns carries that error.
\<close>

theorem writeback_error_reaches_Set_caller:
  "map fst (m cache_holding_root_key) = [[]] \<and>
   map fst (m (fst (lru_Set dirStore_Store cache_holding_root_key ''bar'' (Some (ByteItem ''y'')))))
     = [''bar''] \<and>
   snd (lru_Set dirStore_Store cache_holding_root_key ''bar'' (Some (ByteItem ''y'')))
     = Returns (Some \<lparr>buf = [Some EISDIR], closed = True\<rparr>) \<and>
   recv \<lparr>buf = [Some EISDIR], closed = True\<rparr> = Some (Some EISDIR, True)"
  by code_simp

text \<open>
  C2, amended: when \<^verbatim>\<open>Set\<close> evicts, the channel it returns is the one the backend's \<^verbatim>\<open>Set\<close>
  returned for the write-back, so a failed write-back delivers its error there. When
  \<^verbatim>\<open>Get\<close> evicts, it receives from that channel, drops what it received and returns the
  item it got from the backend. \<^verbatim>\<open>Flush\<close> of a cache over the directory store closes its
  channel without sending an error.
\<close>

theorem writeback_signal:
  "(map_of (m s) key = None \<and> \<not> int (length (m s)) < size_lru s \<and> Back s = Some el \<and>
    backend s = Some be \<and>
    bSet ops be (K (elValue s el)) (V (elValue s el)) = (be', Returns (Some c))
      \<longrightarrow> snd (lru_Set ops s key (Some it)) = Returns (Some c)) \<and>
   (map_of (m s) key = None \<and> \<not> int (length (m s)) < size_lru s \<and> Back s = Some el \<and>
    backend s = Some be \<and> bGet ops be key t = (be1, Returns (Some it)) \<and>
    bSet ops be1 (K (elValue s el)) (V (elValue s el)) = (be2, Returns (Some c)) \<and>
    recv c \<noteq> None
      \<longrightarrow> snd (lru_Get ops s key t) = Returns (Some it)) \<and>
   (backend d = Some ds \<longrightarrow> snd (lru_Flush dirStore_Store d) = Returns (Some closed_chan))"
proof -
  have a: "snd (lru_Set ops s key (Some it)) = Returns (Some c)"
    if "map_of (m s) key = None" "\<not> int (length (m s)) < size_lru s" "Back s = Some el"
      "backend s = Some be"
      "bSet ops be (K (elValue s el)) (V (elValue s el)) = (be', Returns (Some c))"
    using that by (simp add: lru_Set_def put_def Let_def)
  have b: "snd (lru_Get ops s key t) = Returns (Some it)"
    if "map_of (m s) key = None" "\<not> int (length (m s)) < size_lru s" "Back s = Some el"
      "backend s = Some be" "bGet ops be key t = (be1, Returns (Some it))"
      "bSet ops be1 (K (elValue s el)) (V (elValue s el)) = (be2, Returns (Some c))"
      "recv c \<noteq> None"
    using that by (auto simp: lru_Get_def put_def Let_def Back_def recv_nilable_def)
  have c: "snd (lru_Flush dirStore_Store d) = Returns (Some closed_chan)"
    if "backend d = Some ds"
  proof -
    obtain d' where "flush_range dirStore_Store (elValue d) ds (m d) = (d', Returns ())"
      using flush_range_dir by blast
    with that show ?thesis
      by (simp add: lru_Flush_def dirStore_Store_def dirStore_Flush_def recv_nilable_def
          recv_def closed_chan_def)
  qed
  from a b c show ?thesis by blast
qed

theorem writeback_signal_witness:
  "snd (lru_Set dirStore_Store cache_holding_root_key ''bar'' (Some (ByteItem ''y'')))
     = Returns (Some \<lparr>buf = [Some EISDIR], closed = True\<rparr>) \<and>
   snd (lru_Get dirStore_Store cache_holding_root_key ''foo'' (ByteItem []))
     = Returns (Some (ByteItem ''Hello'')) \<and>
   snd (lru_Flush dirStore_Store cache_holding_root_key) = Returns (Some closed_chan)"
proof -
  let ?s = "cache_holding_root_key"
  let ?c = "\<lparr>buf = [Some EISDIR], closed = True\<rparr>"
  have h1: "map_of (m ?s) ''bar'' = None" "map_of (m ?s) ''foo'' = None"
    "\<not> int (length (m ?s)) < size_lru ?s" "Back ?s = Some 0" "backend ?s = Some dir_with_foo"
    by code_simp+
  have h2: "bSet dirStore_Store dir_with_foo (K (elValue ?s 0)) (V (elValue ?s 0))
      = (dir_with_foo, Returns (Some ?c))"
    by code_simp
  have h3: "bGet dirStore_Store dir_with_foo ''foo'' (ByteItem [])
      = (dir_with_foo, Returns (Some (ByteItem ''Hello'')))"
    by code_simp
  have h4: "recv ?c \<noteq> None" by (simp add: recv_def)
  note t1 = writeback_signal[of ?s "''bar''" 0 dir_with_foo dirStore_Store dir_with_foo ?c
      "ByteItem ''y''" "ByteItem []" dir_with_foo dir_with_foo ?s dir_with_foo]
  note t2 = writeback_signal[of ?s "''foo''" 0 dir_with_foo dirStore_Store dir_with_foo ?c
      "ByteItem ''Hello''" "ByteItem []" dir_with_foo dir_with_foo ?s dir_with_foo]
  from t1 h1 h2 have a: "snd (lru_Set dirStore_Store ?s ''bar'' (Some (ByteItem ''y'')))
     = Returns (Some ?c)"
    by simp
  from t2 h1 h2 h3 h4 have b: "snd (lru_Get dirStore_Store ?s ''foo'' (ByteItem []))
     = Returns (Some (ByteItem ''Hello''))"
    by simp
  from t1 h1 have c: "snd (lru_Flush dirStore_Store ?s) = Returns (Some closed_chan)"
    by simp
  from a b c show ?thesis by simp
qed

end
